theory Spec2Isabelle
  imports Main "HOL-Library.Word" "HOL-Library.Sublist"
begin

section \<open>Data model\<close>

text \<open>
  The header \<^verbatim>\<open>src/util/algorithm.hpp\<close> holds five function templates over input
  iterators.  An iterator is modelled as a position (a \<open>nat\<close>) into the caller's
  sequence, \<open>++first\<close> as \<open>first + 1\<close> and \<open>*first\<close> as a read of the sequence at that
  position.  The sequence lives in the memory the call runs in, because the visitor
  receives \<open>*first\<close> by reference and may write to it: a \<open>world\<close> holds the sequence
  (\<open>cont\<close>) and everything else the caller's function object can reach (\<open>user\<close>, its
  captures).  A visitor is a function from its arguments to a change of the world.

  Reading past the end of the sequence, and a range whose end cannot be reached from
  its start, are undefined behaviour in C++; the model returns \<open>Inl Undefined_behaviour\<close>
  there.  A template instantiation the compiler rejects is \<open>Inl Ill_formed\<close>.
\<close>

datatype error = Undefined_behaviour | Ill_formed

record ('a, 'u) world =
  cont :: "'a list"
  user :: 'u

type_synonym size_t = "64 word"

text \<open>
  The \<open>Size\<close> template parameter of \<open>for_each_n\<close> and \<open>indexed_for_n\<close> is the type of
  the count the caller passes.  The loop counter runs from 0 up to \<open>n\<close>, which has that
  same type, so it never overflows and \<open>int\<close> is a faithful model (a negative \<open>n\<close> of a
  signed \<open>Size\<close> gives no iteration).
\<close>

type_synonym ('a, 'u) visitor = "'a \<Rightarrow> int \<Rightarrow> ('a, 'u) world \<Rightarrow> ('a, 'u) world"

type_synonym ('a, 'u) size_visitor = "'a \<Rightarrow> size_t \<Rightarrow> ('a, 'u) world \<Rightarrow> ('a, 'u) world"

section \<open>for_each_n\<close>

text \<open>
  \<^verbatim>\<open>for (Size i = 0; i < n; ++first, (void) ++i) { std::invoke(f, *first, i); } return first;\<close>
  The \<open>enable_if\<close> condition in the return type (an input iterator, and \<open>F\<close> invocable
  with one element) only decides at compile time whether the template takes part in
  overload resolution; what a call does is the loop.
\<close>

function for_each_n_loop ::
  "('a, 'u) visitor \<Rightarrow> int \<Rightarrow> nat \<Rightarrow> int \<Rightarrow> ('a, 'u) world \<Rightarrow> error + nat \<times> ('a, 'u) world"
where
  "for_each_n_loop f n first i w =
     (if i < n then
        (if first < length (cont w)
         then for_each_n_loop f n (first + 1) (i + 1) (f (cont w ! first) i w)
         else Inl Undefined_behaviour)
      else Inr (first, w))"
  by pat_completeness auto
termination
  by (relation "measure (\<lambda>(f, n, first, i, w). nat (n - i))") auto

definition for_each_n ::
  "nat \<Rightarrow> int \<Rightarrow> ('a, 'u) visitor \<Rightarrow> ('a, 'u) world \<Rightarrow> error + nat \<times> ('a, 'u) world"
where
  "for_each_n first n f w = for_each_n_loop f n first 0 w"

section \<open>indexed_for_n\<close>

text \<open>
  The body is the one of \<open>for_each_n\<close>, written out a second time in the source:
  \<^verbatim>\<open>for (Size i = 0; i < n; ++first, (void) ++i) { std::invoke(f, *first, i); } return first;\<close>
\<close>

function indexed_for_n_loop ::
  "('a, 'u) visitor \<Rightarrow> int \<Rightarrow> nat \<Rightarrow> int \<Rightarrow> ('a, 'u) world \<Rightarrow> error + nat \<times> ('a, 'u) world"
where
  "indexed_for_n_loop f n first i w =
     (if i < n then
        (if first < length (cont w)
         then indexed_for_n_loop f n (first + 1) (i + 1) (f (cont w ! first) i w)
         else Inl Undefined_behaviour)
      else Inr (first, w))"
  by pat_completeness auto
termination
  by (relation "measure (\<lambda>(f, n, first, i, w). nat (n - i))") auto

definition indexed_for_n ::
  "nat \<Rightarrow> int \<Rightarrow> ('a, 'u) visitor \<Rightarrow> ('a, 'u) world \<Rightarrow> error + nat \<times> ('a, 'u) world"
where
  "indexed_for_n first n f w = indexed_for_n_loop f n first 0 w"

section \<open>std::for_each\<close>

text \<open>
  The standard algorithm both \<open>join_strings\<close> and \<open>indexed_for\<close> call:
  \<^verbatim>\<open>for (; first != last; ++first) f(*first);\<close>
  Its precondition is that \<open>[first, last)\<close> is a valid range of the sequence; a call
  with \<open>last\<close> before \<open>first\<close>, or one that reads past the end, is undefined behaviour.
  (The variable is written \<open>last'\<close>, since \<open>last\<close> is a constant of the list library.)
\<close>

function std_for_each ::
  "nat \<Rightarrow> nat \<Rightarrow> ('a \<Rightarrow> ('a, 'u) world \<Rightarrow> ('a, 'u) world) \<Rightarrow> ('a, 'u) world
     \<Rightarrow> error + ('a, 'u) world"
where
  "std_for_each first last' g w =
     (if first \<noteq> last' then
        (if first < last' \<and> first < length (cont w)
         then std_for_each (first + 1) last' g (g (cont w ! first) w)
         else Inl Undefined_behaviour)
      else Inr w)"
  by pat_completeness auto
termination
  by (relation "measure (\<lambda>(first, last', g, w). last' - first)") auto

section \<open>join_strings\<close>

text \<open>
  The lambda handed to \<open>std::for_each\<close> captures the local \<open>result\<close> by reference;
  in the model \<open>result\<close> is the \<open>user\<close> part of the world the lambda runs in:
  \<^verbatim>\<open>if (!result.empty()) { result.append(js); } result.append(s);\<close>
\<close>

definition join_step :: "string \<Rightarrow> string \<Rightarrow> (string, string) world \<Rightarrow> (string, string) world"
where
  "join_step js s w =
     (let result = (if user w \<noteq> [] then user w @ js else user w)
      in w\<lparr>user := result @ s\<rparr>)"

text \<open>
  \<open>join_strings b e js\<close> on the sequence \<open>c\<close>: the joined string, and the sequence as
  the call leaves it.
\<close>

definition join_strings ::
  "nat \<Rightarrow> nat \<Rightarrow> string \<Rightarrow> string list \<Rightarrow> error + string \<times> string list"
where
  "join_strings b e js c =
     (case std_for_each b e (join_step js) \<lparr>cont = c, user = []\<rparr> of
        Inl err \<Rightarrow> Inl err
      | Inr w \<Rightarrow> Inr (user w, cont w))"

text \<open>The default argument \<^verbatim>\<open>js = ", "\<close>.\<close>

definition join_strings_default :: "nat \<Rightarrow> nat \<Rightarrow> string list \<Rightarrow> error + string \<times> string list"
where
  "join_strings_default b e c = join_strings b e '', '' c"

section \<open>generate_sequence\<close>

text \<open>
  \<open>std::make_integer_sequence<int, n>\<close> is the pack \<open>0, 1, ..., n - 1\<close>; the program is
  ill-formed when \<open>n\<close> is negative.
\<close>

definition make_integer_sequence :: "int \<Rightarrow> error + int list" where
  "make_integer_sequence n =
     (if n < 0 then Inl Ill_formed else Inr (map int [0..<nat n]))"

text \<open>
  The pack expansion \<^verbatim>\<open>std::invoke(std::forward<Func>(gen), ns)...\<close> inside a braced
  initialiser list: the calls are evaluated in the order they are written, left to right.
  The generator may have side effects, so it takes and returns the state \<open>'s\<close>.
\<close>

type_synonym ('v, 's) generator = "int \<Rightarrow> 's \<Rightarrow> 'v \<times> 's"

fun invoke_pack :: "('v, 's) generator \<Rightarrow> int list \<Rightarrow> 's \<Rightarrow> 'v list \<times> 's" where
  "invoke_pack gen [] s = ([], s)"
| "invoke_pack gen (k # ks) s =
     (case gen k s of (v, s1) \<Rightarrow>
        (case invoke_pack gen ks s1 of (vs, s2) \<Rightarrow> (v # vs, s2)))"

text \<open>
  \<^verbatim>\<open>std::array{...}\<close> names no element type and no size: both are deduced from the
  initialisers by the deduction guide \<open>array(T, U...) -> array<T, 1 + sizeof...(U)>\<close>,
  which needs at least one initialiser.  With an empty pack the expression is
  \<^verbatim>\<open>std::array{}\<close>, for which no element type can be deduced, and the instantiation
  is rejected by the compiler.  The number of initialisers is the size of the pack, known
  at compile time.

  With exactly one initialiser whose type is itself a specialisation of \<open>std::array\<close>,
  deduction prefers the copy deduction candidate to the guide: \<^verbatim>\<open>std::array{x}\<close> is
  then a copy of \<open>x\<close>, with the elements and the size of \<open>x\<close>, not a container of size
  one that holds \<open>x\<close>.  With two or more initialisers only the guide applies.  Whether
  the return type of the generator is a specialisation of \<open>std::array\<close> is a property of
  the type \<open>Func\<close>, known at compile time; the model takes it as the parameter
  \<open>ret_is_array\<close>.  What \<open>std::array{...}\<close> yields is either a container of the
  initialisers or the copy of the single initialiser.
\<close>

datatype 'v generated = Array_of "'v list" | Copy_of 'v

definition std_array :: "bool \<Rightarrow> 'v list \<Rightarrow> error + 'v generated" where
  "std_array ret_is_array vs =
     (case vs of
        [] \<Rightarrow> Inl Ill_formed
      | [v] \<Rightarrow> (if ret_is_array then Inr (Copy_of v) else Inr (Array_of [v]))
      | v # x # xs \<Rightarrow> Inr (Array_of (v # x # xs)))"

definition generate_sequence_impl ::
  "int list \<Rightarrow> bool \<Rightarrow> ('v, 's) generator \<Rightarrow> 's \<Rightarrow> error + 'v generated \<times> 's"
where
  "generate_sequence_impl ns ret_is_array gen s =
     (case invoke_pack gen ns s of (vs, s') \<Rightarrow>
        (case std_array ret_is_array vs of Inl err \<Rightarrow> Inl err | Inr a \<Rightarrow> Inr (a, s')))"

definition generate_sequence ::
  "int \<Rightarrow> bool \<Rightarrow> ('v, 's) generator \<Rightarrow> 's \<Rightarrow> error + 'v generated \<times> 's"
where
  "generate_sequence n ret_is_array gen s =
     (case make_integer_sequence n of
        Inl err \<Rightarrow> Inl err
      | Inr intseq \<Rightarrow> generate_sequence_impl intseq ret_is_array gen s)"

section \<open>indexed_for\<close>

text \<open>
  \<^verbatim>\<open>std::size_t i;\<close> declares the counter without an initialiser, so it starts with
  whatever its storage holds.  The model takes that indeterminate value as the
  parameter \<open>i0\<close>.  The lambda handed to \<open>std::for_each\<close> captures \<open>i\<close> by reference;
  in the model the world the lambda runs in carries \<open>i\<close> in front of the caller's
  \<open>user\<close> part:
  \<^verbatim>\<open>[&] (auto&& a) { std::invoke(std::forward<F>(f), a, i); i++; }\<close>
\<close>

definition indexed_for_body ::
  "('a, 'u) size_visitor \<Rightarrow> 'a \<Rightarrow> ('a, size_t \<times> 'u) world \<Rightarrow> ('a, size_t \<times> 'u) world"
where
  "indexed_for_body f a w =
     (let i = fst (user w);
          v = f a i \<lparr>cont = cont w, user = snd (user w)\<rparr>
      in \<lparr>cont = cont v, user = (i + 1, user v)\<rparr>)"

definition indexed_for ::
  "size_t \<Rightarrow> nat \<Rightarrow> nat \<Rightarrow> ('a, 'u) size_visitor \<Rightarrow> ('a, 'u) world
     \<Rightarrow> error + size_t \<times> ('a, 'u) world"
where
  "indexed_for i0 first last' f w =
     (case std_for_each first last' (indexed_for_body f) \<lparr>cont = cont w, user = (i0, user w)\<rparr> of
        Inl err \<Rightarrow> Inl err
      | Inr v \<Rightarrow> Inr (fst (user v), \<lparr>cont = cont v, user = snd (user v)\<rparr>))"

section \<open>Visitors and generators used to observe the calls\<close>

text \<open>
  A visitor that leaves the sequence alone and appends the arguments of each call it
  receives to a log, and a generator that logs the index it is called with.
\<close>

definition log_visitor :: "('a, ('a \<times> int) list) visitor" where
  "log_visitor a i w = w\<lparr>user := user w @ [(a, i)]\<rparr>"

definition log_size_visitor :: "('a, ('a \<times> size_t) list) size_visitor" where
  "log_size_visitor a i w = w\<lparr>user := user w @ [(a, i)]\<rparr>"

definition log_generator :: "(int \<Rightarrow> 'v) \<Rightarrow> ('v, int list) generator" where
  "log_generator h k s = (h k, s @ [k])"

text \<open>A generator without side effects.\<close>

definition pure_generator :: "(int \<Rightarrow> 'v) \<Rightarrow> ('v, 's) generator" where
  "pure_generator h k s = (h k, s)"

text \<open>
  The \<open>k\<close>-th call a count-driven loop started at \<open>first\<close> makes: the visitor gets the
  element under the cursor, read from the memory as it is then, and the index \<open>k\<close>.
\<close>

definition visit :: "('a, 'u) visitor \<Rightarrow> nat \<Rightarrow> nat \<Rightarrow> ('a, 'u) world \<Rightarrow> ('a, 'u) world" where
  "visit f first k w = f (cont w ! (first + k)) (int k) w"

text \<open>A visitor that may write to the elements but does not resize the sequence.\<close>

definition keeps_length :: "('a \<Rightarrow> 'i \<Rightarrow> ('a, 'u) world \<Rightarrow> ('a, 'u) world) \<Rightarrow> bool" where
  "keeps_length f = (\<forall>a i w. length (cont (f a i w)) = length (cont w))"

text \<open>A visitor that does not write to the sequence at all.\<close>

definition keeps_cont :: "('a \<Rightarrow> 'i \<Rightarrow> ('a, 'u) world \<Rightarrow> ('a, 'u) world) \<Rightarrow> bool" where
  "keeps_cont f = (\<forall>a i w. cont (f a i w) = cont w)"

text \<open>
  A call counter around any visitor: the world it runs in carries the number of calls
  made so far in front of the \<open>user\<close> part the wrapped visitor sees.
\<close>

definition with_count :: "nat \<Rightarrow> ('a, 'u) world \<Rightarrow> ('a, nat \<times> 'u) world" where
  "with_count c w = \<lparr>cont = cont w, user = (c, user w)\<rparr>"

definition counting :: "('a, 'u) visitor \<Rightarrow> ('a, nat \<times> 'u) visitor" where
  "counting f a i w =
     with_count (Suc (fst (user w))) (f a i \<lparr>cont = cont w, user = snd (user w)\<rparr>)"

text \<open>
  The visitors and the generator of the specification's examples: one that sums the
  elements into an accumulator, and the squaring function.
\<close>

definition sum_visitor :: "(int, int) visitor" where
  "sum_visitor a i w = w\<lparr>user := user w + a\<rparr>"

definition square :: "int \<Rightarrow> int" where
  "square i = i * i"

text \<open>
  A generator function whose value is itself an array (of two elements), as a
  \<open>std::array<int, 2>\<close> return type would have.
\<close>

definition index_and_square :: "int \<Rightarrow> int list" where
  "index_and_square i = [i, i * i]"

text \<open>A generator with a side effect on a world: it adds the index to an accumulator.\<close>

definition sum_generator :: "(int, ('a, int) world) generator" where
  "sum_generator k s = (square k, s\<lparr>user := user s + k\<rparr>)"

section \<open>The join of the specification\<close>

text \<open>
  The elements in order with the separator between consecutive elements only, never
  before the first or after the last.
\<close>

fun separated :: "string \<Rightarrow> string list \<Rightarrow> string" where
  "separated J [] = []"
| "separated J [s] = s"
| "separated J (s # t # ts) = s @ J @ separated J (t # ts)"

text \<open>What one call of the lambda of \<open>join_strings\<close> does to \<open>result\<close>.\<close>

definition join_acc :: "string \<Rightarrow> string \<Rightarrow> string \<Rightarrow> string" where
  "join_acc js result s = (if result \<noteq> [] then result @ js else result) @ s"

section \<open>Separator occurrences, as the specification counts them\<close>

text \<open>
  The pieces of \<open>s\<close> between the occurrences of the separator \<open>J\<close>, found from left to
  right without overlap.  The number of occurrences is the number of pieces minus one,
  and concatenating the pieces is \<open>s\<close> with every occurrence removed.
\<close>

function split_on :: "string \<Rightarrow> string \<Rightarrow> string list" where
  "split_on J s =
     (if J = [] \<or> s = [] then [s]
      else if prefix J s then [] # split_on J (drop (length J) s)
      else (case split_on J (tl s) of
              [] \<Rightarrow> [[hd s]]
            | p # ps \<Rightarrow> (hd s # p) # ps))"
  by pat_completeness auto
termination
  by (relation "measure (\<lambda>(J, s). length s)") auto

definition occurrences :: "string \<Rightarrow> string \<Rightarrow> nat" where
  "occurrences J s = length (split_on J s) - 1"

text \<open>
  The property of \<open>join_strings\<close> on the whole sequence \<open>S\<close> with separator \<open>J\<close>: the
  call returns, \<open>J\<close> occurs \<open>max 0 (|S| - 1)\<close> times in the result, and the result with
  the occurrences removed is the concatenation of \<open>S\<close>.
\<close>

definition separators_recoverable :: "string list \<Rightarrow> string \<Rightarrow> bool" where
  "separators_recoverable S J =
     (case join_strings 0 (length S) J S of
        Inl err \<Rightarrow> False
      | Inr (r, c) \<Rightarrow>
          int (occurrences J r) = max 0 (int (length S) - 1) \<and>
          concat (split_on J r) = concat S)"

section \<open>Running time\<close>

text \<open>
  One step per evaluation of a loop condition, and per call of the generator; the
  functions follow the recursion of the loops they count.
\<close>

function T_for_each_n_loop :: "('a, 'u) visitor \<Rightarrow> int \<Rightarrow> nat \<Rightarrow> int \<Rightarrow> ('a, 'u) world \<Rightarrow> nat"
where
  "T_for_each_n_loop f n first i w =
     (if i < n then
        (if first < length (cont w)
         then 1 + T_for_each_n_loop f n (first + 1) (i + 1) (f (cont w ! first) i w)
         else 1)
      else 1)"
  by pat_completeness auto
termination
  by (relation "measure (\<lambda>(f, n, first, i, w). nat (n - i))") auto

definition T_for_each_n :: "nat \<Rightarrow> int \<Rightarrow> ('a, 'u) visitor \<Rightarrow> ('a, 'u) world \<Rightarrow> nat" where
  "T_for_each_n first n f w = T_for_each_n_loop f n first 0 w"

function T_indexed_for_n_loop :: "('a, 'u) visitor \<Rightarrow> int \<Rightarrow> nat \<Rightarrow> int \<Rightarrow> ('a, 'u) world \<Rightarrow> nat"
where
  "T_indexed_for_n_loop f n first i w =
     (if i < n then
        (if first < length (cont w)
         then 1 + T_indexed_for_n_loop f n (first + 1) (i + 1) (f (cont w ! first) i w)
         else 1)
      else 1)"
  by pat_completeness auto
termination
  by (relation "measure (\<lambda>(f, n, first, i, w). nat (n - i))") auto

definition T_indexed_for_n :: "nat \<Rightarrow> int \<Rightarrow> ('a, 'u) visitor \<Rightarrow> ('a, 'u) world \<Rightarrow> nat" where
  "T_indexed_for_n first n f w = T_indexed_for_n_loop f n first 0 w"

function T_std_for_each ::
  "nat \<Rightarrow> nat \<Rightarrow> ('a \<Rightarrow> ('a, 'u) world \<Rightarrow> ('a, 'u) world) \<Rightarrow> ('a, 'u) world \<Rightarrow> nat"
where
  "T_std_for_each first last' g w =
     (if first \<noteq> last' then
        (if first < last' \<and> first < length (cont w)
         then 1 + T_std_for_each (first + 1) last' g (g (cont w ! first) w)
         else 1)
      else 1)"
  by pat_completeness auto
termination
  by (relation "measure (\<lambda>(first, last', g, w). last' - first)") auto

definition T_join_strings :: "nat \<Rightarrow> nat \<Rightarrow> string \<Rightarrow> string list \<Rightarrow> nat" where
  "T_join_strings b e js c = T_std_for_each b e (join_step js) \<lparr>cont = c, user = []\<rparr>"

definition T_indexed_for ::
  "size_t \<Rightarrow> nat \<Rightarrow> nat \<Rightarrow> ('a, 'u) size_visitor \<Rightarrow> ('a, 'u) world \<Rightarrow> nat"
where
  "T_indexed_for i0 first last' f w =
     T_std_for_each first last' (indexed_for_body f) \<lparr>cont = cont w, user = (i0, user w)\<rparr>"

fun T_invoke_pack :: "('v, 's) generator \<Rightarrow> int list \<Rightarrow> 's \<Rightarrow> nat" where
  "T_invoke_pack gen [] s = 0"
| "T_invoke_pack gen (k # ks) s = (case gen k s of (v, s1) \<Rightarrow> 1 + T_invoke_pack gen ks s1)"

definition T_generate_sequence :: "int \<Rightarrow> ('v, 's) generator \<Rightarrow> 's \<Rightarrow> nat" where
  "T_generate_sequence n gen s =
     (case make_integer_sequence n of
        Inl err \<Rightarrow> 0
      | Inr intseq \<Rightarrow> T_invoke_pack gen intseq s)"

section \<open>Theorems\<close>

declare for_each_n_loop.simps [simp del]
declare indexed_for_n_loop.simps [simp del]
declare std_for_each.simps [simp del]
declare T_for_each_n_loop.simps [simp del]
declare T_indexed_for_n_loop.simps [simp del]
declare T_std_for_each.simps [simp del]
declare split_on.simps [simp del]

lemma indexed_for_n_loop_eq:
  "indexed_for_n_loop f n first i w = for_each_n_loop f n first i w"
proof (induction f n first i w rule: for_each_n_loop.induct)
  case (1 f n first i w)
  show ?case
  proof (cases "i < n \<and> first < length (cont w)")
    case True
    then show ?thesis
      using "1.IH" by (subst indexed_for_n_loop.simps, subst for_each_n_loop.simps) simp
  next
    case False
    then show ?thesis
      by (subst indexed_for_n_loop.simps, subst for_each_n_loop.simps) auto
  qed
qed

text \<open>
  C10.  \<open>for_each_n\<close> and \<open>indexed_for_n\<close> are the same function: for every starting
  position, count, visitor and memory they make the same visitor calls with the same
  arguments and return the same position and memory (or both run into undefined
  behaviour).
\<close>

theorem for_each_n_indexed_for_n_identical:
  "for_each_n first n f w = indexed_for_n first n f w"
  by (simp add: for_each_n_def indexed_for_n_def indexed_for_n_loop_eq)

lemma fold_upt_shift:
  "fold g [0..<Suc m] w = fold (\<lambda>k. g (Suc k)) [0..<m] (g 0 w)"
proof -
  have "[0..<Suc m] = 0 # map Suc [0..<m]"
    by (simp add: upt_conv_Cons map_Suc_upt del: upt_Suc)
  then show ?thesis
    by (simp add: fold_map comp_def del: upt_Suc)
qed

lemma for_each_n_loop_run:
  assumes "keeps_length f"
  shows "m = nat (n - i) \<Longrightarrow> i \<le> n \<Longrightarrow> first + m \<le> length (cont w) \<Longrightarrow>
    for_each_n_loop f n first i w =
      Inr (first + m, fold (\<lambda>k v. f (cont v ! (first + k)) (i + int k) v) [0..<m] w)"
proof (induction m arbitrary: first i w)
  case 0
  then show ?case by (subst for_each_n_loop.simps) simp
next
  case (Suc m)
  let ?w = "f (cont w ! first) i w"
  have len: "length (cont ?w) = length (cont w)"
    using assms by (simp add: keeps_length_def)
  have lt: "i < n" "first < length (cont w)" using Suc.prems by auto
  have "for_each_n_loop f n (first + 1) (i + 1) ?w =
      Inr (first + 1 + m, fold (\<lambda>k v. f (cont v ! (first + 1 + k)) (i + 1 + int k) v) [0..<m] ?w)"
    using Suc.prems len by (intro Suc.IH) auto
  moreover have "for_each_n_loop f n first i w = for_each_n_loop f n (first + 1) (i + 1) ?w"
    using lt by (subst for_each_n_loop.simps) simp
  moreover have "fold (\<lambda>k v. f (cont v ! (first + k)) (i + int k) v) [0..<Suc m] w =
      fold (\<lambda>k v. f (cont v ! (first + 1 + k)) (i + 1 + int k) v) [0..<m] ?w"
    by (subst fold_upt_shift) (simp add: add.assoc add.commute add.left_commute)
  ultimately show ?case by simp
qed

lemma T_for_each_n_loop_run:
  assumes "keeps_length f"
  shows "m = nat (n - i) \<Longrightarrow> i \<le> n \<Longrightarrow> first + m \<le> length (cont w) \<Longrightarrow>
    T_for_each_n_loop f n first i w = m + 1"
proof (induction m arbitrary: first i w)
  case 0
  then show ?case by (subst T_for_each_n_loop.simps) simp
next
  case (Suc m)
  let ?w = "f (cont w ! first) i w"
  have len: "length (cont ?w) = length (cont w)"
    using assms by (simp add: keeps_length_def)
  have lt: "i < n" "first < length (cont w)" using Suc.prems by auto
  have "T_for_each_n_loop f n (first + 1) (i + 1) ?w = m + 1"
    using Suc.prems len by (intro Suc.IH) auto
  moreover have "T_for_each_n_loop f n first i w = 1 + T_for_each_n_loop f n (first + 1) (i + 1) ?w"
    using lt by (subst T_for_each_n_loop.simps) simp
  ultimately show ?case by simp
qed

lemma T_indexed_for_n_loop_eq:
  "T_indexed_for_n_loop f n first i w = T_for_each_n_loop f n first i w"
proof (induction f n first i w rule: T_for_each_n_loop.induct)
  case (1 f n first i w)
  show ?case
  proof (cases "i < n \<and> first < length (cont w)")
    case True
    then show ?thesis
      using "1.IH" by (subst T_indexed_for_n_loop.simps, subst T_for_each_n_loop.simps) simp
  next
    case False
    then show ?thesis
      by (subst T_indexed_for_n_loop.simps, subst T_for_each_n_loop.simps) auto
  qed
qed

lemma std_for_each_run:
  assumes "\<forall>a v. length (cont (g a v)) = length (cont v)"
  shows "m = last' - first \<Longrightarrow> first \<le> last' \<Longrightarrow> last' \<le> length (cont w) \<Longrightarrow>
    std_for_each first last' g w =
      Inr (fold (\<lambda>k v. g (cont v ! (first + k)) v) [0..<m] w)"
proof (induction m arbitrary: first w)
  case 0
  then show ?case by (subst std_for_each.simps) simp
next
  case (Suc m)
  let ?w = "g (cont w ! first) w"
  have len: "length (cont ?w) = length (cont w)"
    using assms by simp
  have lt: "first \<noteq> last'" "first < last'" "first < length (cont w)" using Suc.prems by auto
  have "std_for_each (first + 1) last' g ?w =
      Inr (fold (\<lambda>k v. g (cont v ! (first + 1 + k)) v) [0..<m] ?w)"
    using Suc.prems len by (intro Suc.IH) auto
  moreover have "std_for_each first last' g w = std_for_each (first + 1) last' g ?w"
    using lt by (subst std_for_each.simps) simp
  moreover have "fold (\<lambda>k v. g (cont v ! (first + k)) v) [0..<Suc m] w =
      fold (\<lambda>k v. g (cont v ! (first + 1 + k)) v) [0..<m] ?w"
    by (subst fold_upt_shift) (simp add: add.assoc add.commute add.left_commute)
  ultimately show ?case by simp
qed

lemma T_std_for_each_run:
  assumes "\<forall>a v. length (cont (g a v)) = length (cont v)"
  shows "m = last' - first \<Longrightarrow> first \<le> last' \<Longrightarrow> last' \<le> length (cont w) \<Longrightarrow>
    T_std_for_each first last' g w = m + 1"
proof (induction m arbitrary: first w)
  case 0
  then show ?case by (subst T_std_for_each.simps) simp
next
  case (Suc m)
  let ?w = "g (cont w ! first) w"
  have len: "length (cont ?w) = length (cont w)"
    using assms by simp
  have lt: "first \<noteq> last'" "first < last'" "first < length (cont w)" using Suc.prems by auto
  have "T_std_for_each (first + 1) last' g ?w = m + 1"
    using Suc.prems len by (intro Suc.IH) auto
  moreover have "T_std_for_each first last' g w = 1 + T_std_for_each (first + 1) last' g ?w"
    using lt by (subst T_std_for_each.simps) simp
  ultimately show ?case by simp
qed

lemma for_each_n_loop_invariant:
  "(\<forall>a j v. P v \<longrightarrow> P (f a j v)) \<Longrightarrow> P w \<Longrightarrow>
     for_each_n_loop f n first i w = Inr (p, w') \<Longrightarrow> P w'"
proof (induction f n first i w rule: for_each_n_loop.induct)
  case (1 f n first i w)
  show ?case
  proof (cases "i < n")
    case True
    then have lt: "first < length (cont w)"
      using "1.prems"(3) by (subst (asm) for_each_n_loop.simps) (simp split: if_splits)
    have "for_each_n_loop f n (first + 1) (i + 1) (f (cont w ! first) i w) = Inr (p, w')"
      using "1.prems"(3) True lt by (subst (asm) for_each_n_loop.simps) simp
    then show ?thesis
      using "1.IH" [OF True lt] "1.prems"(1) "1.prems"(2) by simp
  next
    case False
    then show ?thesis
      using "1.prems" by (subst (asm) for_each_n_loop.simps) simp
  qed
qed

lemma std_for_each_invariant:
  "(\<forall>a v. P v \<longrightarrow> P (g a v)) \<Longrightarrow> P w \<Longrightarrow>
     std_for_each first last' g w = Inr w' \<Longrightarrow> P w'"
proof (induction first last' g w rule: std_for_each.induct)
  case (1 first last' g w)
  show ?case
  proof (cases "first \<noteq> last'")
    case True
    then have lt: "first < last' \<and> first < length (cont w)"
      using "1.prems"(3) by (subst (asm) std_for_each.simps) (simp split: if_splits)
    have "std_for_each (first + 1) last' g (g (cont w ! first) w) = Inr w'"
      using "1.prems"(3) True lt by (subst (asm) std_for_each.simps) simp
    then show ?thesis
      using "1.IH" [OF True lt] "1.prems"(1) "1.prems"(2) by simp
  next
    case False
    then show ?thesis
      using "1.prems" by (subst (asm) std_for_each.simps) simp
  qed
qed

lemma invoke_pack_invariant:
  "(\<forall>k s. P s \<longrightarrow> P (snd (gen k s))) \<Longrightarrow> P s \<Longrightarrow> P (snd (invoke_pack gen ns s))"
proof (induction ns arbitrary: s)
  case Nil
  then show ?case by simp
next
  case (Cons k ks)
  obtain v s1 where g: "gen k s = (v, s1)" by (cases "gen k s")
  then have "P s1" using Cons.prems by (metis snd_conv)
  then have "P (snd (invoke_pack gen ks s1))" using Cons.IH Cons.prems(1) by blast
  then show ?case using g by (simp add: split_beta)
qed

lemma length_invoke_pack: "length (fst (invoke_pack gen ns s)) = length ns"
  by (induction ns arbitrary: s) (simp_all add: split_beta)

lemma T_invoke_pack_length: "T_invoke_pack gen ns s = length ns"
  by (induction ns arbitrary: s) (simp_all add: split_beta)

lemma invoke_pack_pure: "invoke_pack (pure_generator h) ns s = (map h ns, s)"
  by (induction ns) (auto simp: pure_generator_def)

lemma invoke_pack_log: "invoke_pack (log_generator h) ns s = (map h ns, s @ ns)"
  by (induction ns arbitrary: s) (auto simp: log_generator_def)

lemma world_eta: "\<lparr>cont = cont w, user = user w\<rparr> = (w :: ('a, 'u) world)"
  by (cases w) simp

lemma visit_eta: "(\<lambda>k v. f (cont v ! (first + k)) (int k) v) = visit f first"
  by (simp add: fun_eq_iff visit_def)

lemma keeps_length_counting: "keeps_length f \<Longrightarrow> keeps_length (counting f)"
  by (simp add: keeps_length_def counting_def with_count_def)

lemma fold_visit_counting:
  "fold (visit (counting f) first) [0..<m] (with_count c w) =
     with_count (c + m) (fold (visit f first) [0..<m] w)"
proof (induction m)
  case 0
  then show ?case by simp
next
  case (Suc m)
  then show ?case
    by (simp add: visit_def counting_def with_count_def world_eta)
qed

lemma fold_visit_log:
  "fold (visit log_visitor first) [0..<m] w =
     w\<lparr>user := user w @ map (\<lambda>k. (cont w ! (first + k), int k)) [0..<m]\<rparr>"
proof (induction m)
  case 0
  then show ?case by simp
next
  case (Suc m)
  then show ?case
    by (simp add: visit_def log_visitor_def)
qed

lemma for_each_n_run:
  assumes "keeps_length f" "0 \<le> n" "first + nat n \<le> length (cont w)"
  shows "for_each_n first n f w = Inr (first + nat n, fold (visit f first) [0..<nat n] w)"
  using for_each_n_loop_run [OF assms(1), of "nat n" n 0 first w] assms(2,3)
  by (simp add: for_each_n_def visit_eta)

lemma for_each_n_zero: "for_each_n first 0 f w = Inr (first, w)"
  by (simp add: for_each_n_def for_each_n_loop.simps)

lemma keeps_length_log: "keeps_length log_visitor"
  by (simp add: keeps_length_def log_visitor_def)

text \<open>
  C5.  For every count \<open>n \<ge> 0\<close> that does not exceed the number of elements remaining
  from \<open>first\<close>, and every visitor that does not resize the sequence, \<open>for_each_n\<close> and
  \<open>indexed_for_n\<close> return the position \<open>first + n\<close> and the memory that the calls
  \<open>k = 0, ..., n - 1\<close> of the visitor leave, one call per \<open>k\<close>; a call counter around
  the visitor goes up by exactly \<open>n\<close>.  For \<open>n = 0\<close> both return \<open>first\<close> and the
  memory unchanged, whatever the position and the visitor.
\<close>

theorem for_each_n_indexed_for_n_count_and_position:
  assumes "keeps_length f" and "0 \<le> n" and "first + nat n \<le> length (cont w)"
  shows "for_each_n first n f w = Inr (first + nat n, fold (visit f first) [0..<nat n] w)
       \<and> indexed_for_n first n f w = Inr (first + nat n, fold (visit f first) [0..<nat n] w)
       \<and> for_each_n first n (counting f) (with_count c w) =
           Inr (first + nat n, with_count (c + nat n) (fold (visit f first) [0..<nat n] w))
       \<and> indexed_for_n first n (counting f) (with_count c w) =
           Inr (first + nat n, with_count (c + nat n) (fold (visit f first) [0..<nat n] w))
       \<and> for_each_n first 0 f w = Inr (first, w)
       \<and> indexed_for_n first 0 f w = Inr (first, w)"
proof -
  have a: "for_each_n first n f w = Inr (first + nat n, fold (visit f first) [0..<nat n] w)"
    using assms by (rule for_each_n_run)
  have "first + nat n \<le> length (cont (with_count c w))"
    using assms(3) by (simp add: with_count_def)
  then have b: "for_each_n first n (counting f) (with_count c w) =
      Inr (first + nat n, with_count (c + nat n) (fold (visit f first) [0..<nat n] w))"
    using for_each_n_run [OF keeps_length_counting [OF assms(1)] assms(2), of first "with_count c w"]
    by (simp add: fold_visit_counting)
  have eq: "\<And>g v. indexed_for_n first n g v = for_each_n first n g v"
    by (simp add: for_each_n_def indexed_for_n_def indexed_for_n_loop_eq)
  have z: "indexed_for_n first 0 f w = for_each_n first 0 f w"
    by (simp add: for_each_n_def indexed_for_n_def indexed_for_n_loop_eq)
  show ?thesis
    using a b by (simp add: eq z for_each_n_zero)
qed

theorem for_each_n_indexed_for_n_count_and_position_witness:
  "keeps_length sum_visitor \<and> (0::int) \<le> 2
     \<and> 0 + nat 2 \<le> length (cont \<lparr>cont = [10, 20, 30, 40], user = 0\<rparr>)
     \<and> for_each_n 0 2 sum_visitor \<lparr>cont = [10, 20, 30, 40], user = 0\<rparr> =
         Inr (2, \<lparr>cont = [10, 20, 30, 40], user = 30\<rparr>)
     \<and> indexed_for_n 0 2 sum_visitor \<lparr>cont = [10, 20, 30, 40], user = 0\<rparr> =
         Inr (2, \<lparr>cont = [10, 20, 30, 40], user = 30\<rparr>)
     \<and> for_each_n 0 2 (counting sum_visitor) (with_count 0 \<lparr>cont = [10, 20, 30, 40], user = 0\<rparr>) =
         Inr (2, with_count 2 \<lparr>cont = [10, 20, 30, 40], user = 30\<rparr>)
     \<and> indexed_for_n 0 2 (counting sum_visitor) (with_count 0 \<lparr>cont = [10, 20, 30, 40], user = 0\<rparr>) =
         Inr (2, with_count 2 \<lparr>cont = [10, 20, 30, 40], user = 30\<rparr>)"
proof -
  have k: "keeps_length sum_visitor"
    by (simp add: keeps_length_def sum_visitor_def)
  have f: "fold (visit sum_visitor 0) [0..<nat 2] \<lparr>cont = [10, 20, 30, 40], user = 0\<rparr> =
      \<lparr>cont = [10, 20, 30, 40], user = 30\<rparr>"
    by (simp add: visit_def sum_visitor_def upt_rec)
  show ?thesis
    using for_each_n_indexed_for_n_count_and_position
      [of sum_visitor 2 0 "\<lparr>cont = [10, 20, 30, 40], user = 0\<rparr>" 0] k f
    by (simp add: numeral_2_eq_2)
qed

lemma indexed_for_n_run:
  assumes "keeps_length f" "0 \<le> n" "first + nat n \<le> length (cont w)"
  shows "indexed_for_n first n f w = Inr (first + nat n, fold (visit f first) [0..<nat n] w)"
  using for_each_n_run [OF assms]
  by (simp add: for_each_n_def indexed_for_n_def indexed_for_n_loop_eq)

text \<open>
  C3, as the specification states it (the visitor of \<open>indexed_for_n\<close> never receives the
  index), fails.  The body is \<^verbatim>\<open>std::invoke(std::forward<F>(f), *first, i)\<close>: on the
  sequence \<open>[10, 20]\<close> with \<open>n = 2\<close> the visitor is called with \<open>(10, 0)\<close> and then with
  \<open>(20, 1)\<close>, the index being its second argument.
\<close>

theorem indexed_for_n_passes_index_counterexample:
  "indexed_for_n 0 2 log_visitor \<lparr>cont = [10, 20 :: int], user = []\<rparr> =
     Inr (2, \<lparr>cont = [10, 20], user = [(10, 0), (20, 1)]\<rparr>)"
  by (simp add: indexed_for_n_def indexed_for_n_loop.simps log_visitor_def)

text \<open>
  C3, amended.  For every call \<open>indexed_for_n(first, n, f)\<close> with \<open>0 \<le> n\<close> and at least
  \<open>n\<close> elements remaining from \<open>first\<close>, the \<open>k\<close>-th of the \<open>n\<close> invocations passes the
  current element and the index \<open>k\<close>, for \<open>k = 0, ..., n - 1\<close> in this order: the log of
  the recording visitor grows by exactly these pairs.
\<close>

theorem indexed_for_n_passes_element_and_index:
  assumes "0 \<le> n" and "first + nat n \<le> length (cont w)"
  shows "indexed_for_n first n log_visitor w =
     Inr (first + nat n,
          w\<lparr>user := user w @ map (\<lambda>k. (cont w ! (first + k), int k)) [0..<nat n]\<rparr>)"
  using indexed_for_n_run [OF keeps_length_log assms]
  by (simp add: fold_visit_log)

theorem indexed_for_n_passes_element_and_index_witness:
  "(0::int) \<le> 2 \<and> 1 + nat 2 \<le> length (cont \<lparr>cont = [10, 20, 30, 40 :: int], user = []\<rparr>)
     \<and> indexed_for_n 1 2 log_visitor \<lparr>cont = [10, 20, 30, 40 :: int], user = []\<rparr> =
         Inr (3, \<lparr>cont = [10, 20, 30, 40], user = [(20, 0), (30, 1)]\<rparr>)"
  using indexed_for_n_passes_element_and_index
    [of 2 1 "\<lparr>cont = [10, 20, 30, 40 :: int], user = []\<rparr>"]
  by (simp add: upt_rec)

text \<open>
  C1.  The counter of \<open>indexed_for\<close> is declared as \<^verbatim>\<open>std::size_t i;\<close> and never set
  to zero, although the documentation of the function says the index starts at zero.
  On the empty range the function returns whatever the counter held, not 0; and when
  the counter held 7, the three elements of \<open>[10, 20, 30]\<close> are visited with the indices
  7, 8, 9 and the function returns 10, not 3.  Only when the storage happened to hold 0
  does the call behave as documented.
\<close>

theorem indexed_for_counter_uninitialised:
  "indexed_for i0 first first f w = Inr (i0, w)
     \<and> indexed_for 7 0 3 log_size_visitor \<lparr>cont = [10, 20, 30 :: int], user = []\<rparr> =
         Inr (10, \<lparr>cont = [10, 20, 30], user = [(10, 7), (20, 8), (30, 9)]\<rparr>)
     \<and> indexed_for 0 0 3 log_size_visitor \<lparr>cont = [10, 20, 30 :: int], user = []\<rparr> =
         Inr (3, \<lparr>cont = [10, 20, 30], user = [(10, 0), (20, 1), (30, 2)]\<rparr>)"
  by (simp add: indexed_for_def std_for_each.simps indexed_for_body_def log_size_visitor_def
      world_eta)

lemma std_array_container:
  "vs \<noteq> [] \<Longrightarrow> \<not> (length vs = 1 \<and> ra) \<Longrightarrow> std_array ra vs = Inr (Array_of vs)"
  by (cases vs; cases "tl vs") (auto simp: std_array_def)

lemma std_array_returns: "vs \<noteq> [] \<Longrightarrow> \<exists>a. std_array ra vs = Inr a"
  by (cases vs; cases "tl vs") (auto simp: std_array_def)

lemma generate_sequence_run:
  assumes "1 \<le> N" "\<not> (N = 1 \<and> ra)"
  shows "generate_sequence N ra gen s =
    Inr (Array_of (fst (invoke_pack gen (map int [0..<nat N]) s)),
         snd (invoke_pack gen (map int [0..<nat N]) s))"
proof -
  obtain vs s' where p: "invoke_pack gen (map int [0..<nat N]) s = (vs, s')"
    by (cases "invoke_pack gen (map int [0..<nat N]) s")
  have len: "length vs = nat N"
    using length_invoke_pack [of gen "map int [0..<nat N]" s] p by simp
  then have "vs \<noteq> []" using assms(1) by auto
  moreover have "\<not> (length vs = 1 \<and> ra)" using len assms by auto
  ultimately have "std_array ra vs = Inr (Array_of vs)"
    by (rule std_array_container)
  then show ?thesis
    using assms(1) p
    by (simp add: generate_sequence_def make_integer_sequence_def generate_sequence_impl_def)
qed

lemma generate_sequence_returns:
  assumes "1 \<le> N"
  shows "\<exists>a s'. generate_sequence N ra gen s = Inr (a, s')"
proof -
  obtain vs s' where p: "invoke_pack gen (map int [0..<nat N]) s = (vs, s')"
    by (cases "invoke_pack gen (map int [0..<nat N]) s")
  have "length vs = nat N"
    using length_invoke_pack [of gen "map int [0..<nat N]" s] p by simp
  then have "vs \<noteq> []" using assms by auto
  then obtain a where "std_array ra vs = Inr a"
    using std_array_returns by blast
  then show ?thesis
    using assms p
    by (simp add: generate_sequence_def make_integer_sequence_def generate_sequence_impl_def)
qed

text \<open>
  The single initialiser that is itself a \<open>std::array\<close>: the result is the copy of what
  the generator returned for index 0.
\<close>

lemma generate_sequence_single_array_initialiser:
  "generate_sequence 1 True gen s = Inr (Copy_of (fst (gen 0 s)), snd (gen 0 s))"
  by (simp add: generate_sequence_def make_integer_sequence_def generate_sequence_impl_def
      std_array_def split_beta)

text \<open>
  C4, as the specification states it (for every \<open>N \<ge> 0\<close>), fails at \<open>N = 0\<close>: the pack is
  empty, \<^verbatim>\<open>std::array{}\<close> has nothing to deduce its element type from, and no container
  is produced.
\<close>

theorem generate_sequence_empty_pack_counterexample:
  "generate_sequence 0 False (log_generator square) [] = Inl Ill_formed"
  by (simp add: generate_sequence_def make_integer_sequence_def generate_sequence_impl_def
      std_array_def)

text \<open>
  C4, amended.  For every \<open>N \<ge> 1\<close> and every generator, except \<open>N = 1\<close> with a generator
  whose return type is itself a specialisation of \<open>std::array\<close>,
  \<open>generate_sequence<N>\<close> returns a container with exactly \<open>N\<close> elements; for a generator
  without side effects computing \<open>h\<close> the element at position \<open>i\<close> is \<open>h i\<close>; and the
  generator is called exactly once per index, for \<open>i = 0, ..., N - 1\<close> in ascending
  order, as the log of the recording generator shows.
\<close>

theorem generate_sequence_elements:
  assumes "1 \<le> N" and "\<not> (N = 1 \<and> ret_is_array)"
  shows "generate_sequence N ret_is_array (pure_generator h) s =
           Inr (Array_of (map h (map int [0..<nat N])), s)
       \<and> generate_sequence N ret_is_array (log_generator h) l =
           Inr (Array_of (map h (map int [0..<nat N])), l @ map int [0..<nat N])
       \<and> (\<exists>vs t. generate_sequence N ret_is_array gen u = Inr (Array_of vs, t)
             \<and> int (length vs) = N)"
proof -
  obtain vs t where p: "invoke_pack gen (map int [0..<nat N]) u = (vs, t)"
    by (cases "invoke_pack gen (map int [0..<nat N]) u")
  have "length vs = nat N"
    using length_invoke_pack [of gen "map int [0..<nat N]" u] p by simp
  then have "generate_sequence N ret_is_array gen u = Inr (Array_of vs, t)
      \<and> int (length vs) = N"
    using assms p by (simp add: generate_sequence_run)
  then show ?thesis
    using assms by (simp add: generate_sequence_run invoke_pack_pure invoke_pack_log)
qed

theorem generate_sequence_elements_witness:
  "(1::int) \<le> 4 \<and> \<not> ((4::int) = 1 \<and> False)
     \<and> generate_sequence 4 False (pure_generator square) () = Inr (Array_of [0, 1, 4, 9], ())
     \<and> generate_sequence 4 False (log_generator square) [] =
         Inr (Array_of [0, 1, 4, 9], [0, 1, 2, 3])
     \<and> (\<exists>vs t. generate_sequence 4 False (log_generator square) [] = Inr (Array_of vs, t)
           \<and> int (length vs) = 4)
     \<and> (1::int) \<le> 1 \<and> \<not> ((1::int) = 1 \<and> False)
     \<and> generate_sequence 1 False (pure_generator square) () = Inr (Array_of [0], ())
     \<and> generate_sequence 1 False (log_generator square) [] = Inr (Array_of [0], [0])
     \<and> (1::int) \<le> 2 \<and> \<not> ((2::int) = 1 \<and> True)
     \<and> generate_sequence 2 True (pure_generator index_and_square) () =
         Inr (Array_of [[0, 0], [1, 1]], ())"
  using generate_sequence_elements
      [where N = 2 and ret_is_array = True and h = index_and_square and s = "()" and l = "[]"
         and gen = "log_generator index_and_square" and u = "[]"]
    generate_sequence_elements
      [where N = 4 and ret_is_array = False and h = square and s = "()" and l = "[]"
         and gen = "log_generator square" and u = "[]"]
    generate_sequence_elements
      [where N = 1 and ret_is_array = False and h = square and s = "()" and l = "[]"
         and gen = "log_generator square" and u = "[]"]
  by (simp add: upt_rec square_def index_and_square_def)

text \<open>
  C6, as the specification states it, fails in its first half:
  \<open>generate_sequence<0>\<close> does not yield an empty container, the instantiation is
  rejected.
\<close>

theorem generate_sequence_zero_counterexample:
  "generate_sequence 0 False (pure_generator square) () = Inl Ill_formed"
  by (simp add: generate_sequence_def make_integer_sequence_def generate_sequence_impl_def
      std_array_def)

text \<open>
  C6, amended.  \<open>generate_sequence<3>\<close> applied to the generator \<open>i \<mapsto> i * i\<close> yields the
  container \<open>[0, 1, 4]\<close>, calling the generator with 0, 1, 2 in this order.
\<close>

theorem generate_sequence_three_squares:
  "generate_sequence 3 ret_is_array (pure_generator square) s = Inr (Array_of [0, 1, 4], s)
     \<and> generate_sequence 3 ret_is_array (log_generator square) [] =
         Inr (Array_of [0, 1, 4], [0, 1, 2])"
  by (simp add: generate_sequence_def make_integer_sequence_def generate_sequence_impl_def
      std_array_def pure_generator_def log_generator_def square_def upt_rec)

lemma join_step_cont: "cont (join_step js s w) = cont w"
  by (simp add: join_step_def Let_def)

lemma indexed_for_body_cont:
  "keeps_cont f \<Longrightarrow> cont (indexed_for_body f a w) = cont w"
  by (simp add: indexed_for_body_def Let_def keeps_cont_def)

lemma indexed_for_body_length:
  "keeps_length f \<Longrightarrow> length (cont (indexed_for_body f a w)) = length (cont w)"
  by (simp add: indexed_for_body_def Let_def keeps_length_def)

lemma join_strings_frame:
  assumes "join_strings b e js c = Inr (r, c')"
  shows "c' = c"
proof -
  obtain w where w: "std_for_each b e (join_step js) \<lparr>cont = c, user = []\<rparr> = Inr w"
    and c': "c' = cont w"
    using assms by (auto simp: join_strings_def split: sum.splits)
  have "cont w = c"
    using std_for_each_invariant [where P = "\<lambda>v. cont v = c", OF _ _ w]
    by (simp add: join_step_cont)
  then show ?thesis using c' by simp
qed

lemma for_each_n_frame:
  assumes "keeps_cont f" "for_each_n first n f w = Inr (p, w')"
  shows "cont w' = cont w"
proof -
  have step: "\<forall>a j v. cont v = cont w \<longrightarrow> cont (f a j v) = cont w"
    using assms(1) by (simp add: keeps_cont_def)
  have run: "for_each_n_loop f n first 0 w = Inr (p, w')"
    using assms(2) by (simp add: for_each_n_def)
  show ?thesis
    by (rule for_each_n_loop_invariant [where P = "\<lambda>v. cont v = cont w", OF step _ run]) simp
qed

lemma indexed_for_frame:
  assumes "keeps_cont g" "indexed_for i0 first last' g v = Inr (k, v')"
  shows "cont v' = cont v"
proof -
  obtain x where x: "std_for_each first last' (indexed_for_body g)
      \<lparr>cont = cont v, user = (i0, user v)\<rparr> = Inr x"
    and v': "v' = \<lparr>cont = cont x, user = snd (user x)\<rparr>"
    using assms(2) by (auto simp: indexed_for_def split: sum.splits)
  have "cont x = cont v"
    using std_for_each_invariant [where P = "\<lambda>y. cont y = cont v", OF _ _ x] assms(1)
    by (simp add: indexed_for_body_cont)
  then show ?thesis using v' by simp
qed

lemma generate_sequence_frame:
  assumes "\<forall>k s. cont (snd (gen k s)) = cont s" "generate_sequence N ra gen u = Inr (vs, u')"
  shows "cont u' = cont u"
proof -
  obtain ns where ns: "make_integer_sequence N = Inr ns"
    and g: "generate_sequence_impl ns ra gen u = Inr (vs, u')"
    using assms(2) by (auto simp: generate_sequence_def split: sum.splits)
  have "u' = snd (invoke_pack gen ns u)"
    using g by (auto simp: generate_sequence_impl_def split: prod.splits sum.splits)
  moreover have "cont (snd (invoke_pack gen ns u)) = cont u"
  proof -
    have step: "\<forall>k s. cont s = cont u \<longrightarrow> cont (snd (gen k s)) = cont u"
      using assms(1) by simp
    show ?thesis
      by (rule invoke_pack_invariant [where P = "\<lambda>s. cont s = cont u", OF step]) simp
  qed
  ultimately show ?thesis by simp
qed

text \<open>
  C8.  None of the five operations writes to its input sequence.  \<open>join_strings\<close>
  leaves the sequence it read as it was.  When the visitor does not write to the
  sequence, the sequence is the same after \<open>for_each_n\<close>, \<open>indexed_for_n\<close> and
  \<open>indexed_for\<close> as before; and when the generator does not write to a sequence in
  its state, \<open>generate_sequence\<close> does not either.  The only writes are the ones the
  caller's own visitor or generator performs.
\<close>

theorem operations_leave_sequence_unchanged:
  "(join_strings b e js c = Inr (r, c') \<longrightarrow> c' = c)
   \<and> (keeps_cont f \<and> for_each_n first n f w = Inr (p, w') \<longrightarrow> cont w' = cont w)
   \<and> (keeps_cont f \<and> indexed_for_n first n f w = Inr (q, w'') \<longrightarrow> cont w'' = cont w)
   \<and> (keeps_cont g \<and> indexed_for i0 first last' g v = Inr (k, v') \<longrightarrow> cont v' = cont v)
   \<and> ((\<forall>k s. cont (snd (gen k s)) = cont s)
        \<and> generate_sequence N ret_is_array gen u = Inr (vs, u')
        \<longrightarrow> cont u' = cont u)"
proof -
  have "keeps_cont f \<and> indexed_for_n first n f w = Inr (q, w'') \<longrightarrow> cont w'' = cont w"
    using for_each_n_frame [of f first n w q w'']
    by (simp add: for_each_n_def indexed_for_n_def indexed_for_n_loop_eq)
  then show ?thesis
    using join_strings_frame [of b e js c r c'] for_each_n_frame [of f first n w p w']
      indexed_for_frame [of g i0 first last' v k v'] generate_sequence_frame [where gen = gen and N = N and ra = ret_is_array and u = u and vs = vs
        and u' = u']
    by blast
qed

lemma keeps_cont_sum: "keeps_cont sum_visitor"
  by (simp add: keeps_cont_def sum_visitor_def)

lemma keeps_cont_log_size: "keeps_cont log_size_visitor"
  by (simp add: keeps_cont_def log_size_visitor_def)

theorem operations_leave_sequence_unchanged_witness:
  "join_strings 0 3 ''-'' [''a'', ''b'', ''c''] = Inr (''a-b-c'', [''a'', ''b'', ''c''])
   \<and> keeps_cont sum_visitor
   \<and> for_each_n 0 2 sum_visitor \<lparr>cont = [10, 20, 30, 40], user = 0\<rparr> =
        Inr (2, \<lparr>cont = [10, 20, 30, 40], user = 30\<rparr>)
   \<and> indexed_for_n 0 2 sum_visitor \<lparr>cont = [10, 20, 30, 40], user = 0\<rparr> =
        Inr (2, \<lparr>cont = [10, 20, 30, 40], user = 30\<rparr>)
   \<and> cont \<lparr>cont = [10, 20, 30, 40 :: int], user = 30 :: int\<rparr> =
        cont \<lparr>cont = [10, 20, 30, 40 :: int], user = 0 :: int\<rparr>
   \<and> keeps_cont (log_size_visitor :: (int, (int \<times> size_t) list) size_visitor)
   \<and> indexed_for 0 0 2 log_size_visitor \<lparr>cont = [10, 20 :: int], user = []\<rparr> =
        Inr (2, \<lparr>cont = [10, 20], user = [(10, 0), (20, 1)]\<rparr>)
   \<and> cont \<lparr>cont = [10, 20 :: int], user = [(10 :: int, 0 :: size_t), (20, 1)]\<rparr> =
        cont \<lparr>cont = [10, 20 :: int], user = [] :: (int \<times> size_t) list\<rparr>
   \<and> (\<forall>k s. cont (snd (sum_generator k (s :: (int, int) world))) = cont s)
   \<and> generate_sequence 3 False sum_generator \<lparr>cont = [10, 20 :: int], user = 0\<rparr> =
        Inr (Array_of [0, 1, 4], \<lparr>cont = [10, 20], user = 3\<rparr>)
   \<and> cont \<lparr>cont = [10, 20 :: int], user = 3 :: int\<rparr> =
        cont \<lparr>cont = [10, 20 :: int], user = 0 :: int\<rparr>"
proof -
  have j: "join_strings 0 3 ''-'' [''a'', ''b'', ''c''] = Inr (''a-b-c'', [''a'', ''b'', ''c''])"
    by (simp add: join_strings_def std_for_each.simps join_step_def)
  have a: "for_each_n 0 2 sum_visitor \<lparr>cont = [10, 20, 30, 40], user = 0\<rparr> =
        Inr (2, \<lparr>cont = [10, 20, 30, 40], user = 30\<rparr>)"
    by (simp add: for_each_n_def for_each_n_loop.simps sum_visitor_def)
  have b: "indexed_for_n 0 2 sum_visitor \<lparr>cont = [10, 20, 30, 40], user = 0\<rparr> =
        Inr (2, \<lparr>cont = [10, 20, 30, 40], user = 30\<rparr>)"
    by (simp add: indexed_for_n_def indexed_for_n_loop.simps sum_visitor_def)
  have c: "indexed_for 0 0 2 log_size_visitor \<lparr>cont = [10, 20 :: int], user = []\<rparr> =
        Inr (2, \<lparr>cont = [10, 20], user = [(10, 0), (20, 1)]\<rparr>)"
    by (simp add: indexed_for_def std_for_each.simps indexed_for_body_def log_size_visitor_def)
  have d: "\<forall>k s. cont (snd (sum_generator k (s :: (int, int) world))) = cont s"
    by (simp add: sum_generator_def)
  have e: "generate_sequence 3 False sum_generator \<lparr>cont = [10, 20 :: int], user = 0\<rparr> =
        Inr (Array_of [0, 1, 4], \<lparr>cont = [10, 20], user = 3\<rparr>)"
    by (simp add: generate_sequence_def make_integer_sequence_def generate_sequence_impl_def
      std_array_def sum_generator_def square_def upt_rec)
  note t = operations_leave_sequence_unchanged
      [where b = 0 and e = 3 and js = "''-''" and c = "[''a'', ''b'', ''c'']"
         and r = "''a-b-c''" and c' = "[''a'', ''b'', ''c'']"
         and f = sum_visitor and first = 0 and n = 2
         and w = "\<lparr>cont = [10, 20, 30, 40], user = 0\<rparr>"
         and p = 2 and w' = "\<lparr>cont = [10, 20, 30, 40], user = 30\<rparr>"
         and q = 2 and w'' = "\<lparr>cont = [10, 20, 30, 40], user = 30\<rparr>"
         and g = "log_size_visitor :: (int, (int \<times> size_t) list) size_visitor"
         and ?i0.0 = 0 and last' = 2
         and v = "\<lparr>cont = [10, 20 :: int], user = []\<rparr>" and k = 2
         and v' = "\<lparr>cont = [10, 20], user = [(10, 0), (20, 1)]\<rparr>"
         and gen = "sum_generator :: (int, (int, int) world) generator" and N = 3
         and ret_is_array = False
         and u = "\<lparr>cont = [10, 20 :: int], user = 0\<rparr>" and vs = "Array_of [0, 1, 4]"
         and u' = "\<lparr>cont = [10, 20], user = 3\<rparr>"]
  have fr: "cont \<lparr>cont = [10, 20, 30, 40 :: int], user = 30 :: int\<rparr> =
        cont \<lparr>cont = [10, 20, 30, 40 :: int], user = 0 :: int\<rparr>"
    using t a keeps_cont_sum by blast
  have fr2: "cont \<lparr>cont = [10, 20 :: int], user = [(10 :: int, 0 :: size_t), (20, 1)]\<rparr> =
        cont \<lparr>cont = [10, 20 :: int], user = [] :: (int \<times> size_t) list\<rparr>"
    using t c keeps_cont_log_size by blast
  have fr3: "cont \<lparr>cont = [10, 20 :: int], user = 3 :: int\<rparr> =
        cont \<lparr>cont = [10, 20 :: int], user = 0 :: int\<rparr>"
    using t d e by blast
  show ?thesis
    using j a b c d e keeps_cont_sum keeps_cont_log_size fr fr2 fr3 by blast
qed

lemma T_for_each_n_run:
  assumes "keeps_length f" "0 \<le> n" "first + nat n \<le> length (cont w)"
  shows "T_for_each_n first n f w = nat n + 1"
  using T_for_each_n_loop_run [OF assms(1), of "nat n" n 0 first w] assms(2,3)
  by (simp add: T_for_each_n_def)

lemma T_indexed_for_n_run:
  assumes "keeps_length f" "0 \<le> n" "first + nat n \<le> length (cont w)"
  shows "T_indexed_for_n first n f w = nat n + 1"
  using T_for_each_n_loop_run [OF assms(1), of "nat n" n 0 first w] assms(2,3)
  by (simp add: T_indexed_for_n_def T_indexed_for_n_loop_eq)

lemma indexed_for_returns:
  assumes "keeps_length g" "b \<le> e" "e \<le> length (cont v)"
  shows "\<exists>k v'. indexed_for i0 b e g v = Inr (k, v')"
proof -
  have len: "\<forall>a x. length (cont (indexed_for_body g a x)) = length (cont x)"
    using assms(1) by (simp add: indexed_for_body_length)
  have "e \<le> length (cont \<lparr>cont = cont v, user = (i0, user v)\<rparr>)"
    using assms(3) by simp
  from std_for_each_run [OF len refl assms(2) this]
  show ?thesis by (simp add: indexed_for_def)
qed

lemma T_indexed_for_run:
  assumes "keeps_length g" "b \<le> e" "e \<le> length (cont v)"
  shows "T_indexed_for i0 b e g v = (e - b) + 1"
proof -
  have len: "\<forall>a x. length (cont (indexed_for_body g a x)) = length (cont x)"
    using assms(1) by (simp add: indexed_for_body_length)
  have "e \<le> length (cont \<lparr>cont = cont v, user = (i0, user v)\<rparr>)"
    using assms(3) by simp
  from T_std_for_each_run [OF len refl assms(2) this]
  show ?thesis by (simp add: T_indexed_for_def)
qed

lemma join_step_length: "\<forall>a x. length (cont (join_step js a x)) = length (cont x)"
  by (simp add: join_step_cont)

lemma join_strings_returns:
  assumes "b \<le> e" "e \<le> length c"
  shows "\<exists>r c'. join_strings b e js c = Inr (r, c')"
proof -
  have "e \<le> length (cont \<lparr>cont = c, user = ([] :: string)\<rparr>)"
    using assms(2) by simp
  from std_for_each_run [OF join_step_length refl assms(1) this]
  show ?thesis by (simp add: join_strings_def)
qed

lemma T_join_strings_run:
  assumes "b \<le> e" "e \<le> length c"
  shows "T_join_strings b e js c = (e - b) + 1"
proof -
  have "e \<le> length (cont \<lparr>cont = c, user = ([] :: string)\<rparr>)"
    using assms(2) by simp
  from T_std_for_each_run [OF join_step_length refl assms(1) this]
  show ?thesis by (simp add: T_join_strings_def)
qed

lemma T_generate_sequence_run: "0 \<le> N \<Longrightarrow> T_generate_sequence N gen s = nat N"
  by (simp add: T_generate_sequence_def make_integer_sequence_def T_invoke_pack_length)

text \<open>
  C9.  Every call of the five operations on a well-formed input runs to completion:
  it returns a result (not undefined behaviour), and the number of steps it takes is
  \<open>n + 1\<close> for the count-driven loops, the range length plus one for \<open>indexed_for\<close> and
  \<open>join_strings\<close> (one evaluation of the loop condition per element and the last one
  that ends the loop), and \<open>N\<close> calls of the generator for \<open>generate_sequence<N>\<close>.
  Well-formed means: the count is not negative and does not exceed the elements
  remaining, the range lies in the sequence, the visitor does not resize the sequence,
  and \<open>N \<ge> 1\<close>.  The loops are total functions: their termination is proved where they
  are defined.
\<close>

theorem operations_terminate:
  assumes "keeps_length f" and "0 \<le> n" and "first + nat n \<le> length (cont w)"
      and "keeps_length g" and "b \<le> e" and "e \<le> length (cont v)"
      and "b' \<le> e'" and "e' \<le> length c"
      and "1 \<le> N"
  shows "(\<exists>p w'. for_each_n first n f w = Inr (p, w')) \<and> T_for_each_n first n f w = nat n + 1
       \<and> (\<exists>p w'. indexed_for_n first n f w = Inr (p, w'))
       \<and> T_indexed_for_n first n f w = nat n + 1
       \<and> (\<exists>k v'. indexed_for i0 b e g v = Inr (k, v')) \<and> T_indexed_for i0 b e g v = (e - b) + 1
       \<and> (\<exists>r c'. join_strings b' e' js c = Inr (r, c'))
       \<and> T_join_strings b' e' js c = (e' - b') + 1
       \<and> (\<exists>vs s'. generate_sequence N ret_is_array gen s = Inr (vs, s'))
       \<and> T_generate_sequence N gen s = nat N"
proof -
  have 1: "\<exists>p w'. for_each_n first n f w = Inr (p, w')"
    using for_each_n_run [OF assms(1,2,3)] by simp
  have 2: "\<exists>p w'. indexed_for_n first n f w = Inr (p, w')"
    using indexed_for_n_run [OF assms(1,2,3)] by simp
  have 3: "\<exists>vs s'. generate_sequence N ret_is_array gen s = Inr (vs, s')"
    using assms(9) by (rule generate_sequence_returns)
  have 4: "T_generate_sequence N gen s = nat N"
    using assms(9) by (simp add: T_generate_sequence_run)
  show ?thesis
    using 1 2 3 4 T_for_each_n_run [OF assms(1,2,3)] T_indexed_for_n_run [OF assms(1,2,3)]
      indexed_for_returns [OF assms(4,5,6), of i0] T_indexed_for_run [OF assms(4,5,6), of i0]
      join_strings_returns [OF assms(7,8), of js] T_join_strings_run [OF assms(7,8), of js]
    by blast
qed

lemma keeps_length_sum: "keeps_length sum_visitor"
  by (simp add: keeps_length_def sum_visitor_def)

lemma keeps_length_log_size: "keeps_length log_size_visitor"
  by (simp add: keeps_length_def log_size_visitor_def)

theorem operations_terminate_witness:
  "keeps_length sum_visitor \<and> (0 :: int) \<le> 2
   \<and> 0 + nat 2 \<le> length (cont \<lparr>cont = [10, 20, 30, 40 :: int], user = 0 :: int\<rparr>)
   \<and> keeps_length (log_size_visitor :: (int, (int \<times> size_t) list) size_visitor)
   \<and> (0 :: nat) \<le> 2
   \<and> 2 \<le> length (cont \<lparr>cont = [10, 20 :: int], user = [] :: (int \<times> size_t) list\<rparr>)
   \<and> (0 :: nat) \<le> 3 \<and> 3 \<le> length [''a'', ''b'', ''c''] \<and> (1 :: int) \<le> 3
   \<and> for_each_n 0 2 sum_visitor \<lparr>cont = [10, 20, 30, 40], user = 0\<rparr> =
        Inr (2, \<lparr>cont = [10, 20, 30, 40], user = 30\<rparr>)
   \<and> T_for_each_n 0 2 sum_visitor \<lparr>cont = [10, 20, 30, 40], user = 0\<rparr> = 3
   \<and> indexed_for_n 0 2 sum_visitor \<lparr>cont = [10, 20, 30, 40], user = 0\<rparr> =
        Inr (2, \<lparr>cont = [10, 20, 30, 40], user = 30\<rparr>)
   \<and> T_indexed_for_n 0 2 sum_visitor \<lparr>cont = [10, 20, 30, 40], user = 0\<rparr> = 3
   \<and> indexed_for 0 0 2 log_size_visitor \<lparr>cont = [10, 20 :: int], user = []\<rparr> =
        Inr (2, \<lparr>cont = [10, 20], user = [(10, 0), (20, 1)]\<rparr>)
   \<and> T_indexed_for 0 0 2 log_size_visitor \<lparr>cont = [10, 20 :: int], user = []\<rparr> = 3
   \<and> join_strings 0 3 ''-'' [''a'', ''b'', ''c''] = Inr (''a-b-c'', [''a'', ''b'', ''c''])
   \<and> T_join_strings 0 3 ''-'' [''a'', ''b'', ''c''] = 4
   \<and> generate_sequence 3 False (pure_generator square) () = Inr (Array_of [0, 1, 4], ())
   \<and> T_generate_sequence 3 (pure_generator square) () = 3"
proof -
  have j: "join_strings 0 3 ''-'' [''a'', ''b'', ''c''] = Inr (''a-b-c'', [''a'', ''b'', ''c''])"
    by (simp add: join_strings_def std_for_each.simps join_step_def)
  have a: "for_each_n 0 2 sum_visitor \<lparr>cont = [10, 20, 30, 40], user = 0\<rparr> =
        Inr (2, \<lparr>cont = [10, 20, 30, 40], user = 30\<rparr>)"
    by (simp add: for_each_n_def for_each_n_loop.simps sum_visitor_def)
  have b: "indexed_for_n 0 2 sum_visitor \<lparr>cont = [10, 20, 30, 40], user = 0\<rparr> =
        Inr (2, \<lparr>cont = [10, 20, 30, 40], user = 30\<rparr>)"
    by (simp add: indexed_for_n_def indexed_for_n_loop.simps sum_visitor_def)
  have c: "indexed_for 0 0 2 log_size_visitor \<lparr>cont = [10, 20 :: int], user = []\<rparr> =
        Inr (2, \<lparr>cont = [10, 20], user = [(10, 0), (20, 1)]\<rparr>)"
    by (simp add: indexed_for_def std_for_each.simps indexed_for_body_def log_size_visitor_def)
  have e: "generate_sequence 3 False (pure_generator square) () = Inr (Array_of [0, 1, 4], ())"
    by (simp add: generate_sequence_def make_integer_sequence_def generate_sequence_impl_def
      std_array_def pure_generator_def square_def upt_rec)
  have h: "keeps_length sum_visitor" "(0 :: int) \<le> 2"
      "0 + nat 2 \<le> length (cont \<lparr>cont = [10, 20, 30, 40 :: int], user = 0 :: int\<rparr>)"
      "keeps_length (log_size_visitor :: (int, (int \<times> size_t) list) size_visitor)"
      "(0 :: nat) \<le> 2"
      "2 \<le> length (cont \<lparr>cont = [10, 20 :: int], user = [] :: (int \<times> size_t) list\<rparr>)"
      "(0 :: nat) \<le> 3" "3 \<le> length [''a'', ''b'', ''c'']" "(1 :: int) \<le> 3"
    by (simp_all add: keeps_length_sum keeps_length_log_size)
  note t = operations_terminate [OF h, where ?i0.0 = 0 and js = "''-''"
      and gen = "pure_generator square" and s = "()" and ret_is_array = False]
  have "T_for_each_n 0 2 sum_visitor \<lparr>cont = [10, 20, 30, 40], user = 0\<rparr> = 3"
    "T_indexed_for_n 0 2 sum_visitor \<lparr>cont = [10, 20, 30, 40], user = 0\<rparr> = 3"
    "T_indexed_for 0 0 2 log_size_visitor \<lparr>cont = [10, 20 :: int], user = []\<rparr> = 3"
    "T_join_strings 0 3 ''-'' [''a'', ''b'', ''c''] = 4"
    "T_generate_sequence 3 (pure_generator square) () = 3"
    using t by simp_all
  then show ?thesis
    using h j a b c e by simp
qed

lemma fold_join_step:
  "first + m \<le> length c \<Longrightarrow>
   fold (\<lambda>k v. join_step js (cont v ! (first + k)) v) [0..<m] \<lparr>cont = c, user = r\<rparr> =
     \<lparr>cont = c, user = foldl (join_acc js) r (take m (drop first c))\<rparr>"
proof (induction m)
  case 0
  then show ?case by simp
next
  case (Suc m)
  then have "take (Suc m) (drop first c) = take m (drop first c) @ [c ! (first + m)]"
    by (simp add: take_Suc_conv_app_nth)
  then show ?case
    using Suc by (simp add: join_step_def join_acc_def)
qed

lemma join_strings_foldl:
  assumes "b \<le> e" "e \<le> length c"
  shows "join_strings b e js c = Inr (foldl (join_acc js) [] (take (e - b) (drop b c)), c)"
proof -
  have "e \<le> length (cont \<lparr>cont = c, user = ([] :: string)\<rparr>)"
    using assms(2) by simp
  from std_for_each_run [OF join_step_length refl assms(1) this]
  show ?thesis
    using assms by (simp add: join_strings_def fold_join_step)
qed

lemma join_strings_whole:
  "join_strings 0 (length S) js S = Inr (foldl (join_acc js) [] S, S)"
  using join_strings_foldl [of 0 "length S" S js] by simp

lemma foldl_join_acc_nonempty:
  "r \<noteq> [] \<Longrightarrow> foldl (join_acc js) r S = r @ concat (map ((@) js) S)"
proof (induction S arbitrary: r)
  case Nil
  then show ?case by simp
next
  case (Cons s S)
  have "join_acc js r s \<noteq> []" using Cons.prems by (simp add: join_acc_def)
  from Cons.IH [OF this] show ?case
    using Cons.prems by (simp add: join_acc_def)
qed

lemma foldl_join_acc_Cons:
  "s \<noteq> [] \<Longrightarrow> foldl (join_acc js) [] (s # S) = s @ concat (map ((@) js) S)"
  using foldl_join_acc_nonempty [of s js S] by (simp add: join_acc_def)

lemma separated_Cons: "separated J (s # S) = s @ concat (map ((@) J) S)"
  by (induction S arbitrary: s) simp_all

lemma foldl_join_acc_separated:
  assumes "length S \<le> 1 \<or> hd S \<noteq> []"
  shows "foldl (join_acc js) [] S = separated js S"
proof (cases S)
  case Nil
  then show ?thesis by simp
next
  case (Cons s T)
  show ?thesis
  proof (cases "s = []")
    case True
    then have "T = []" using assms Cons by simp
    then show ?thesis using Cons True by (simp add: join_acc_def)
  next
    case False
    then show ?thesis
      using Cons foldl_join_acc_Cons [of s js T] by (simp add: separated_Cons)
  qed
qed

lemma foldl_join_acc_dropWhile:
  "foldl (join_acc js) [] S = separated js (dropWhile (\<lambda>s. s = []) S)"
proof (induction S)
  case Nil
  then show ?case by simp
next
  case (Cons s S)
  show ?case
  proof (cases "s = []")
    case True
    then show ?thesis using Cons by (simp add: join_acc_def)
  next
    case False
    then show ?thesis
      using foldl_join_acc_Cons [of s js S] by (simp add: separated_Cons)
  qed
qed

text \<open>
  What \<open>join_strings\<close> computes on every sequence: the join of the elements that remain
  when the leading empty ones are dropped.
\<close>

lemma join_strings_skips_leading_empties:
  "join_strings 0 (length S) js S = Inr (separated js (dropWhile (\<lambda>s. s = []) S), S)"
  using join_strings_whole [where js = js and S = S] by (simp add: foldl_join_acc_dropWhile)

lemma foldl_join_acc_prefix: "S \<noteq> [] \<Longrightarrow> prefix (hd S) (foldl (join_acc js) [] S)"
proof (cases S)
  case Nil
  assume "S \<noteq> []"
  then show ?thesis using Nil by simp
next
  case (Cons s T)
  show ?thesis
  proof (cases "s = []")
    case True
    then show ?thesis using Cons by simp
  next
    case False
    then show ?thesis using Cons foldl_join_acc_Cons [of s js T] by simp
  qed
qed

lemma foldl_join_acc_suffix: "S \<noteq> [] \<Longrightarrow> suffix (last S) (foldl (join_acc js) [] S)"
proof -
  assume "S \<noteq> []"
  then obtain T t where S: "S = T @ [t]"
    by (metis append_butlast_last_id)
  have "suffix t (join_acc js (foldl (join_acc js) [] T) t)"
    by (simp add: join_acc_def suffix_def)
  then show ?thesis using S by simp
qed

lemma not_prefix_disjoint:
  "J \<noteq> [] \<Longrightarrow> c \<notin> set J \<Longrightarrow> \<not> prefix J (c # xs)"
  by (cases J) auto

lemma split_on_disjoint:
  "J \<noteq> [] \<Longrightarrow> set s \<inter> set J = {} \<Longrightarrow> split_on J s = [s]"
proof (induction s)
  case Nil
  then show ?case by (subst split_on.simps) simp
next
  case (Cons c cs)
  have np: "\<not> prefix J (c # cs)"
    using Cons.prems by (intro not_prefix_disjoint) auto
  have "split_on J cs = [cs]" using Cons by auto
  then show ?case
    using Cons.prems(1) np by (subst split_on.simps) simp
qed

lemma split_on_separator:
  "J \<noteq> [] \<Longrightarrow> set s \<inter> set J = {} \<Longrightarrow> split_on J (s @ J @ rest) = s # split_on J rest"
proof (induction s)
  case Nil
  then show ?case by (subst split_on.simps) simp
next
  case (Cons c cs)
  have np: "\<not> prefix J (c # cs @ J @ rest)"
    using Cons.prems by (intro not_prefix_disjoint) auto
  have "split_on J (cs @ J @ rest) = cs # split_on J rest" using Cons by auto
  then show ?case
    using Cons.prems(1) np by (subst split_on.simps) simp
qed

lemma split_on_separated:
  "J \<noteq> [] \<Longrightarrow> \<forall>t \<in> set (s # T). set t \<inter> set J = {} \<Longrightarrow>
     split_on J (s @ concat (map ((@) J) T)) = s # T"
proof (induction T arbitrary: s)
  case Nil
  then show ?case by (simp add: split_on_disjoint)
next
  case (Cons t T)
  have "split_on J (t @ concat (map ((@) J) T)) = t # T"
    using Cons.prems by (intro Cons.IH) auto
  moreover have "split_on J (s @ J @ (t @ concat (map ((@) J) T))) =
      s # split_on J (t @ concat (map ((@) J) T))"
    using Cons.prems by (intro split_on_separator) auto
  ultimately show ?case by simp
qed

lemma split_on_Nil: "split_on J [] = [[]]"
  by (subst split_on.simps) simp

text \<open>
  C7.  \<open>join_strings\<close> on an empty range returns the empty string, also with the
  default separator; on a single element it returns that element, whatever the
  separator; \<open>["a", "b", "c"]\<close> joined with \<open>"-"\<close> is \<open>"a-b-c"\<close>; and for a sequence of
  any size the result begins with the first element and ends with the last one, so
  that no separator stands before the first element or after the last.
\<close>

theorem join_strings_edge_cases:
  "join_strings b b js c = Inr ([], c)
   \<and> join_strings_default 0 0 [] = Inr ([], [])
   \<and> join_strings 0 1 js [s] = Inr (s, [s])
   \<and> join_strings 0 3 ''-'' [''a'', ''b'', ''c''] = Inr (''a-b-c'', [''a'', ''b'', ''c''])
   \<and> (\<exists>r. join_strings 0 (length S) J S = Inr (r, S)
          \<and> (case S of [] \<Rightarrow> r = [] | x # T \<Rightarrow> prefix x r \<and> suffix (last S) r))"
proof -
  have 1: "join_strings b b js c = Inr ([], c)"
    by (simp add: join_strings_def std_for_each.simps)
  have 2: "join_strings_default 0 0 [] = Inr ([], [])"
    by (simp add: join_strings_default_def join_strings_def std_for_each.simps)
  have 3: "join_strings 0 1 js [s] = Inr (s, [s])"
    using join_strings_whole [where js = js and S = "[s]"] by (simp add: join_acc_def)
  have 4: "join_strings 0 3 ''-'' [''a'', ''b'', ''c''] = Inr (''a-b-c'', [''a'', ''b'', ''c''])"
    by (simp add: join_strings_def std_for_each.simps join_step_def)
  have 5: "case S of [] \<Rightarrow> foldl (join_acc J) [] S = []
      | x # T \<Rightarrow> prefix x (foldl (join_acc J) [] S) \<and> suffix (last S) (foldl (join_acc J) [] S)"
  proof (cases S)
    case Nil
    then show ?thesis by simp
  next
    case (Cons x T)
    then have "S \<noteq> []" by simp
    from foldl_join_acc_prefix [OF this, of J] foldl_join_acc_suffix [OF this, of J]
    show ?thesis using Cons by simp
  qed
  have "\<exists>r. join_strings 0 (length S) J S = Inr (r, S)
          \<and> (case S of [] \<Rightarrow> r = [] | x # T \<Rightarrow> prefix x r \<and> suffix (last S) r)"
    using 5 join_strings_whole [where js = J and S = S] by blast
  then show ?thesis using 1 2 3 4 by blast
qed

text \<open>
  C2, as the specification states it, fails when an element contains the separator:
  \<open>["a-b", "c"]\<close> joined with \<open>"-"\<close> is \<open>"a-b-c"\<close>, in which the separator occurs
  twice, not once, and which without its separators is \<open>"abc"\<close>, not \<open>"a-bc"\<close>.
\<close>

theorem join_strings_separator_inside_element_counterexample:
  "join_strings 0 2 ''-'' [''a-b'', ''c''] = Inr (''a-b-c'', [''a-b'', ''c''])
   \<and> occurrences ''-'' ''a-b-c'' = 2
   \<and> concat (split_on ''-'' ''a-b-c'') = ''abc''
   \<and> concat [''a-b'', ''c''] = ''a-bc''
   \<and> \<not> separators_recoverable [''a-b'', ''c''] ''-''"
  by code_simp

text \<open>
  The lambda tests \<open>result.empty()\<close> to find out whether an element came before, so
  no separator follows leading empty elements.
\<close>

lemma join_strings_leading_empty:
  "join_strings 0 2 ''-'' ['''', ''a''] = Inr (''a'', ['''', ''a''])"
  by (simp add: join_strings_def std_for_each.simps join_step_def)

text \<open>
  C2, amended.  For every sequence \<open>S\<close> of strings that has at most one element or
  begins with a non-empty element, and every non-empty separator \<open>J\<close> that has no
  character in common with an element of \<open>S\<close>, \<open>join_strings\<close> returns the elements of
  \<open>S\<close> in order with \<open>J\<close> between consecutive elements; \<open>J\<close> occurs exactly
  \<open>max 0 (|S| - 1)\<close> times in it, and removing each occurrence and concatenating the
  pieces gives the concatenation of \<open>S\<close>.
\<close>

theorem join_strings_separators_recoverable:
  assumes "length S \<le> 1 \<or> hd S \<noteq> []" and "J \<noteq> []"
      and "\<forall>s \<in> set S. set s \<inter> set J = {}"
  shows "join_strings 0 (length S) J S = Inr (separated J S, S)
       \<and> separators_recoverable S J"
proof -
  have j: "join_strings 0 (length S) J S = Inr (separated J S, S)"
    using join_strings_whole [where js = J and S = S]
      foldl_join_acc_separated [OF assms(1), where js = J] by simp
  have "int (occurrences J (separated J S)) = max 0 (int (length S) - 1)
      \<and> concat (split_on J (separated J S)) = concat S"
  proof (cases S)
    case Nil
    then show ?thesis by (simp add: occurrences_def split_on_Nil)
  next
    case (Cons s T)
    have "split_on J (s @ concat (map ((@) J) T)) = s # T"
      using assms(2,3) Cons by (intro split_on_separated) auto
    then have "split_on J (separated J S) = S"
      using Cons by (simp add: separated_Cons)
    then show ?thesis using Cons by (simp add: occurrences_def)
  qed
  then show ?thesis using j by (simp add: separators_recoverable_def)
qed

theorem join_strings_separators_recoverable_witness:
  "(length [''a'', '''', ''c''] \<le> 1 \<or> hd [''a'', '''', ''c''] \<noteq> []) \<and> ''-'' \<noteq> []
   \<and> set ''a'' \<inter> set ''-'' = {} \<and> set '''' \<inter> set ''-'' = {}
   \<and> set ''c'' \<inter> set ''-'' = {}
   \<and> join_strings 0 (length [''a'', '''', ''c'']) ''-'' [''a'', '''', ''c''] =
        Inr (''a--c'', [''a'', '''', ''c''])
   \<and> separators_recoverable [''a'', '''', ''c''] ''-''"
proof -
  have h: "length [''a'', '''', ''c''] \<le> 1 \<or> hd [''a'', '''', ''c''] \<noteq> []" "''-'' \<noteq> []"
    "\<forall>s \<in> set [''a'', '''', ''c'']. set s \<inter> set ''-'' = {}"
    by simp_all
  show ?thesis
    using join_strings_separators_recoverable [OF h] h by simp
qed

end
